theory Spec2Isabelle
  imports Main "HOL-Library.AList"
begin

section \<open>Arena hero chooser: the Team class of arena\_hero\_chooser.py\<close>

text \<open>
  The program keeps its configuration and the shared hero pool in class variables of
  \<open>Team\<close> and the per-player data in instance attributes. The class variables are the
  record \<open>session\<close>, an instance is the record \<open>team\<close>, and every method takes the state
  it reads and returns the state it leaves. A method that raises returns \<open>Inl\<close> with the
  exception and the state as it is at the raise.

  A Python \<open>dict\<close> keeps its keys in insertion order, and the order is observable
  (\<open>list(d.keys())\<close>), so the pool is an association list: \<open>map_of\<close> is the lookup,
  \<open>AList.update\<close> is \<open>d[k] = v\<close> (an existing key keeps its place, a new key goes to the
  end) and \<open>AList.delete\<close> is \<open>del d[k]\<close>.
\<close>

subsection \<open>Data\<close>

datatype error =
    FileNotFoundError
  | PathNotSetError
  | ValueError
  | IndexError
  | KeyError
  | TypeError
  | AttributeError

type_synonym catalog = "(string \<times> string list) list"

text \<open>The class variables of \<open>Team\<close> (lines 37--40).\<close>

record session =
  hero_file_path :: "string option"
  possible_heroes :: "catalog option"
  team_size :: int
  allow_special_class :: bool

definition initial_session :: session where
  "initial_session =
     \<lparr>hero_file_path = None, possible_heroes = None, team_size = 3,
      allow_special_class = True\<rparr>"

text \<open>The instance attributes set by \<open>__init__\<close> (lines 142--145).\<close>

record team =
  name :: string
  roll :: int
  possible_classes :: "string list"
  heroes :: "string list"

text \<open>
  The file system as the program sees it: a path is mapped to the text of the regular
  file it names, after the newline translation of text mode. \<open>path.isfile p\<close> is
  \<open>fs p \<noteq> None\<close>.
\<close>

type_synonym filesystem = "string \<Rightarrow> string option"

subsection \<open>Library functions the program calls\<close>

text \<open>
  \<open>random.randint(a, b)\<close> is \<open>a + randbelow(b - a + 1)\<close> and \<open>random.choice(seq)\<close> is
  \<open>seq[randbelow(len(seq))]\<close>, raising \<open>IndexError\<close> on an empty sequence. The generator
  is not part of the program: each call takes the raw draw \<open>g\<close> as an argument, and
  \<open>randbelow n\<close> reduces it to an index below \<open>n\<close>.
\<close>

definition randbelow :: "nat \<Rightarrow> nat \<Rightarrow> nat" where
  "randbelow n g = g mod n"

definition randint :: "int \<Rightarrow> int \<Rightarrow> nat \<Rightarrow> int" where
  "randint a b g = a + int (randbelow (nat (b - a + 1)) g)"

definition choice :: "nat \<Rightarrow> 'a list \<Rightarrow> error + 'a" where
  "choice g xs = (if xs = [] then Inl IndexError else Inr (xs ! randbelow (length xs) g))"

text \<open>
  \<open>line.split(", ")\<close>: \<open>find_delim\<close> cuts a string at the leftmost \<open>", "\<close> and
  \<open>split_delim\<close> repeats the cut on what follows, so the result always has at least one
  segment.
\<close>

fun find_delim :: "string \<Rightarrow> (string \<times> string) option" where
  "find_delim (a # b # xs) =
     (if a = CHR '','' \<and> b = CHR '' '' then Some ([], xs)
      else (case find_delim (b # xs) of
              None \<Rightarrow> None
            | Some (h, t) \<Rightarrow> Some (a # h, t)))"
| "find_delim [a] = None"
| "find_delim [] = None"

lemma find_delim_length: "find_delim s = Some (h, t) \<Longrightarrow> length t < length s"
  by (induction s arbitrary: h t rule: find_delim.induct)
     (auto split: if_splits option.splits)

function split_delim :: "string \<Rightarrow> string list" where
  "split_delim s =
     (case find_delim s of
        None \<Rightarrow> [s]
      | Some (h, t) \<Rightarrow> h # split_delim t)"
  by pat_completeness auto
termination
  by (relation "measure length") (auto dest: find_delim_length)

declare split_delim.simps [simp del]

text \<open>\<open>s.strip('\n')\<close> removes the newline characters at both ends, and nothing else.\<close>

definition newline :: char where
  "newline = CHR 0x0A"

definition strip_newline :: "string \<Rightarrow> string" where
  "strip_newline s =
     rev (dropWhile (\<lambda>c. c = newline) (rev (dropWhile (\<lambda>c. c = newline) s)))"

text \<open>
  Iterating over a text file yields its lines, each with its newline; only the last
  line may lack one.
\<close>

fun lines_of :: "string \<Rightarrow> string list" where
  "lines_of [] = []"
| "lines_of (c # cs) =
     (if c = newline then [c] # lines_of cs
      else (case lines_of cs of
              [] \<Rightarrow> [[c]]
            | l # ls \<Rightarrow> (c # l) # ls))"

subsection \<open>Class methods\<close>

text \<open>\<open>set_hero_file\<close> (lines 47--57).\<close>

definition set_hero_file :: "filesystem \<Rightarrow> string \<Rightarrow> session \<Rightarrow> error \<times> session + session" where
  "set_hero_file fs path_to_file s =
     (if fs path_to_file = None then Inl (FileNotFoundError, s)
      else Inr (s\<lparr>hero_file_path := Some path_to_file\<rparr>))"

text \<open>
  The body of the loop of \<open>load_heroes\<close> (lines 80--89): \<open>parse_line\<close> is lines 80--82,
  where \<open>heroes[1]\<close> raises \<open>IndexError\<close> on a line without delimiter, and \<open>add_hero\<close> is
  the \<open>try\<close>/\<open>except KeyError\<close> of lines 84--89.
\<close>

definition parse_line :: "string \<Rightarrow> error + string \<times> string" where
  "parse_line line =
     (case split_delim line of
        hero_name # seg # _ \<Rightarrow> Inr (hero_name, strip_newline seg)
      | _ \<Rightarrow> Inl IndexError)"

definition add_hero :: "catalog \<Rightarrow> string \<times> string \<Rightarrow> catalog" where
  "add_hero all_heroes p =
     (case p of (hero_name, hero_class) \<Rightarrow>
        (case map_of all_heroes hero_class of
           Some hs \<Rightarrow> AList.update hero_class (hs @ [hero_name]) all_heroes
         | None \<Rightarrow> AList.update hero_class [hero_name] all_heroes))"

fun load_lines :: "catalog \<Rightarrow> string list \<Rightarrow> error + catalog" where
  "load_lines all_heroes [] = Inr all_heroes"
| "load_lines all_heroes (line # ls) =
     (case parse_line line of
        Inl e \<Rightarrow> Inl e
      | Inr p \<Rightarrow> load_lines (add_hero all_heroes p) ls)"

text \<open>
  \<open>load_heroes\<close> (lines 60--91). \<open>not cls._hero_file_path\<close> holds for \<open>None\<close> and for the
  empty string. The dictionary is local until line 91 assigns it, so a raise inside the
  loop leaves the class variables as they were.
\<close>

definition load_heroes :: "filesystem \<Rightarrow> session \<Rightarrow> error \<times> session + session" where
  "load_heroes fs s =
     (case hero_file_path s of
        None \<Rightarrow> Inl (PathNotSetError, s)
      | Some p \<Rightarrow>
          if p = [] then Inl (PathNotSetError, s)
          else (case fs p of
                  None \<Rightarrow> Inl (FileNotFoundError, s)
                | Some content \<Rightarrow>
                    (case load_lines [] (lines_of content) of
                       Inl e \<Rightarrow> Inl (e, s)
                     | Inr all_heroes \<Rightarrow> Inr (s\<lparr>possible_heroes := Some all_heroes\<rparr>))))"

text \<open>
  \<open>disallow_special\<close> (lines 94--104). An empty dictionary is falsy, and has no key to
  delete either.
\<close>

definition disallow_special :: "session \<Rightarrow> session" where
  "disallow_special s =
     (let s1 = (if allow_special_class s then s\<lparr>allow_special_class := False\<rparr> else s)
      in (case possible_heroes s1 of
            None \<Rightarrow> s1
          | Some cat \<Rightarrow>
              if cat \<noteq> [] \<and> ''Special'' \<in> set (map fst cat)
              then s1\<lparr>possible_heroes := Some (AList.delete ''Special'' cat)\<rparr>
              else s1))"

text \<open>\<open>set_team_size\<close> (lines 107--118): the test reads the class variable.\<close>

definition set_team_size :: "int \<Rightarrow> session \<Rightarrow> error \<times> session + session" where
  "set_team_size n s =
     (if team_size s = 3 \<or> team_size s = 4 then Inr (s\<lparr>team_size := n\<rparr>)
      else Inl (ValueError, s))"

subsection \<open>Instance methods\<close>

text \<open>
  \<open>__init__\<close> (lines 134--145), named \<open>init\<close>. After a successful load the pool is a
  dictionary; were it still \<open>None\<close>, line 139 would raise \<open>TypeError\<close> when the flag is
  off and line 144 \<open>AttributeError\<close> otherwise.
\<close>

definition init :: "filesystem \<Rightarrow> string \<Rightarrow> nat \<Rightarrow> session \<Rightarrow> error \<times> session + session \<times> team" where
  "init fs team_name g s =
     (case (if possible_heroes s = None then load_heroes fs s else Inr s) of
        Inl x \<Rightarrow> Inl x
      | Inr s1 \<Rightarrow>
          (case possible_heroes s1 of
             None \<Rightarrow> Inl (if allow_special_class s1 then AttributeError else TypeError, s1)
           | Some cat \<Rightarrow>
               (let cat2 = (if \<not> allow_special_class s1 \<and> ''Special'' \<in> set (map fst cat)
                            then AList.delete ''Special'' cat else cat)
                in Inr (s1\<lparr>possible_heroes := Some cat2\<rparr>,
                        \<lparr>name = team_name, roll = randint 1 20 g,
                         possible_classes = map fst cat2, heroes = []\<rparr>))))"

text \<open>\<open>reroll\<close> (line 161).\<close>

definition reroll :: "nat \<Rightarrow> session \<times> team \<Rightarrow> session \<times> team" where
  "reroll g w = (case w of (s, t) \<Rightarrow> (s, t\<lparr>roll := randint 1 20 g\<rparr>))"

text \<open>
  Line 174 of \<open>choose_hero\<close>: one copy of a class for every hero of its list.
  \<open>self._possible_heroes[key]\<close> raises \<open>KeyError\<close> for a class that is not a key, and
  \<open>TypeError\<close> when the pool is \<open>None\<close>.
\<close>

fun keys_to_choose_from :: "catalog option \<Rightarrow> string list \<Rightarrow> error + string list" where
  "keys_to_choose_from pool [] = Inr []"
| "keys_to_choose_from None (key # ks) = Inl TypeError"
| "keys_to_choose_from (Some cat) (key # ks) =
     (case map_of cat key of
        None \<Rightarrow> Inl KeyError
      | Some hs \<Rightarrow>
          (case keys_to_choose_from (Some cat) ks of
             Inl e \<Rightarrow> Inl e
           | Inr rest \<Rightarrow> Inr (replicate (length hs) key @ rest)))"

text \<open>Lines 174--178: the class and the hero that the call picks.\<close>

definition select_hero :: "nat \<Rightarrow> nat \<Rightarrow> session \<Rightarrow> team \<Rightarrow> error + string \<times> string" where
  "select_hero g1 g2 s t =
     (case keys_to_choose_from (possible_heroes s) (possible_classes t) of
        Inl e \<Rightarrow> Inl e
      | Inr ks \<Rightarrow>
          (case choice g1 ks of
             Inl e \<Rightarrow> Inl e
           | Inr key \<Rightarrow>
               (case possible_heroes s of
                  None \<Rightarrow> Inl TypeError
                | Some cat \<Rightarrow>
                    (case map_of cat key of
                       None \<Rightarrow> Inl KeyError
                     | Some hs \<Rightarrow>
                         (case choice g2 hs of
                            Inl e \<Rightarrow> Inl e
                          | Inr hero \<Rightarrow> Inr (key, hero))))))"

text \<open>
  \<open>choose_hero\<close> (lines 174--185). Lines 179, 182 and 185 change the state one after the
  other; \<open>list.remove\<close> raises \<open>ValueError\<close> when the element is absent.
\<close>

definition choose_hero :: "nat \<Rightarrow> nat \<Rightarrow> session \<times> team \<Rightarrow> error \<times> session \<times> team + session \<times> team" where
  "choose_hero g1 g2 w =
     (case w of (s, t) \<Rightarrow>
        (case select_hero g1 g2 s t of
           Inl e \<Rightarrow> Inl (e, s, t)
         | Inr (key, hero) \<Rightarrow>
             (let t1 = t\<lparr>heroes := heroes t @ [hero]\<rparr> in
              if key \<notin> set (possible_classes t1) then Inl (ValueError, s, t1)
              else
                (let t2 = t1\<lparr>possible_classes := remove1 key (possible_classes t1)\<rparr> in
                 (case possible_heroes s of
                    None \<Rightarrow> Inl (TypeError, s, t2)
                  | Some cat \<Rightarrow>
                      (case map_of cat key of
                         None \<Rightarrow> Inl (KeyError, s, t2)
                       | Some hs \<Rightarrow>
                           if hero \<notin> set hs then Inl (ValueError, s, t2)
                           else Inr (s\<lparr>possible_heroes :=
                                         Some (AList.update key (remove1 hero hs) cat)\<rparr>,
                                     t2)))))))"

subsection \<open>The drafting loop\<close>

text \<open>
  The loop of the main program (lines 264--266) calls \<open>choose_hero\<close> on the two teams in
  turn. \<open>drafts\<close> runs any sequence of such calls: an entry names the team that drafts
  (\<open>True\<close> for the first) and the two draws of its call. The run stops at the first
  raise. Next to the final state it returns, for every call, the team and what
  \<open>select_hero\<close> picked in the state of that call.
\<close>

type_synonym pick = "bool \<times> (error + string \<times> string)"

fun drafts ::
  "(bool \<times> nat \<times> nat) list \<Rightarrow> session \<times> team \<times> team \<Rightarrow>
     error \<times> session \<times> team \<times> team + (session \<times> team \<times> team) \<times> pick list" where
  "drafts [] w = Inr (w, [])"
| "drafts ((first, g1, g2) # cs) (s, a, b) =
     (case choose_hero g1 g2 (s, if first then a else b) of
        Inl (e, s', t') \<Rightarrow> Inl (e, s', if first then t' else a, if first then b else t')
      | Inr (s', t') \<Rightarrow>
          (case drafts cs (s', if first then t' else a, if first then b else t') of
             Inl x \<Rightarrow> Inl x
           | Inr (w', log) \<Rightarrow>
               Inr (w', (first, select_hero g1 g2 s (if first then a else b)) # log)))"

subsection \<open>Notions used in the statements\<close>

text \<open>
  The heroes of a class that are still in the pool; none when the pool is not loaded or
  the class is not one of its keys.
\<close>

definition available :: "session \<Rightarrow> string \<Rightarrow> string list" where
  "available s c =
     (case possible_heroes s of
        None \<Rightarrow> []
      | Some cat \<Rightarrow> (case map_of cat c of None \<Rightarrow> [] | Some hs \<Rightarrow> hs))"

text \<open>All the heroes of the pool, class after class.\<close>

definition pool_heroes :: "catalog \<Rightarrow> string list" where
  "pool_heroes cat = concat (map snd cat)"

text \<open>
  What a team picked in a run of \<open>drafts\<close>, as pairs of class and hero in the order of
  its calls; the number of calls of a team in a sequence; the state a run ends in,
  whether it raised or not; and the statement that no hero is listed twice among the
  heroes of the two teams and the pool.
\<close>

fun picked :: "bool \<Rightarrow> pick list \<Rightarrow> (string \<times> string) list" where
  "picked who [] = []"
| "picked who ((first, Inl e) # log) = picked who log"
| "picked who ((first, Inr p) # log) =
     (if first = who then p # picked who log else picked who log)"

fun final_state ::
  "error \<times> session \<times> team \<times> team + (session \<times> team \<times> team) \<times> pick list \<Rightarrow>
     session \<times> team \<times> team" where
  "final_state (Inl (e, w)) = w"
| "final_state (Inr (w, log)) = w"

definition no_hero_twice :: "session \<times> team \<times> team \<Rightarrow> bool" where
  "no_hero_twice w =
     (case w of (s, a, b) \<Rightarrow>
        (case possible_heroes s of
           None \<Rightarrow> False
         | Some cat \<Rightarrow> distinct (heroes a @ heroes b @ pool_heroes cat)))"

definition calls_of :: "bool \<Rightarrow> (bool \<times> nat \<times> nat) list \<Rightarrow> nat" where
  "calls_of who cs = length (filter (\<lambda>c. fst c = who) cs)"

text \<open>
  A call can draft when the pool is loaded, every eligible class of the team is a key
  of the pool and one of them has a hero left. \<open>each_can_draft\<close> says so of every call of
  a sequence, in the state in which the call is made.
\<close>

definition can_draft :: "session \<Rightarrow> team \<Rightarrow> bool" where
  "can_draft s t =
     (case possible_heroes s of
        None \<Rightarrow> False
      | Some cat \<Rightarrow>
          set (possible_classes t) \<subseteq> fst ` set cat
          \<and> (\<exists>c \<in> set (possible_classes t). available s c \<noteq> []))"

fun each_can_draft :: "(bool \<times> nat \<times> nat) list \<Rightarrow> session \<times> team \<times> team \<Rightarrow> bool" where
  "each_can_draft [] w = True"
| "each_can_draft ((first, g, h) # cs) (s, a, b) =
     (can_draft s (if first then a else b)
      \<and> (case choose_hero g h (s, if first then a else b) of
            Inl x \<Rightarrow> True
          | Inr (s', t') \<Rightarrow>
              each_can_draft cs (s', if first then t' else a, if first then b else t')))"

text \<open>
  A string contains the delimiter \<open>", "\<close>; the elements of a list in the order of their
  first occurrence.
\<close>

fun has_delim :: "string \<Rightarrow> bool" where
  "has_delim (a # b # xs) = (a = CHR '','' \<and> b = CHR '' '' \<or> has_delim (b # xs))"
| "has_delim [a] = False"
| "has_delim [] = False"

definition first_occurrences :: "'a list \<Rightarrow> 'a list" where
  "first_occurrences xs = rev (remdups (rev xs))"

text \<open>
  The class field as the specification words it: the text after the first delimiter
  with the whitespace at both ends stripped, as \<open>str.strip()\<close> without argument does.
\<close>

definition is_whitespace :: "char \<Rightarrow> bool" where
  "is_whitespace c \<longleftrightarrow>
     c = CHR '' '' \<or> c = CHR 0x09 \<or> c = CHR 0x0A \<or> c = CHR 0x0B \<or> c = CHR 0x0C \<or> c = CHR 0x0D"

definition strip_whitespace :: "string \<Rightarrow> string" where
  "strip_whitespace s = rev (dropWhile is_whitespace (rev (dropWhile is_whitespace s)))"

definition spec_class_field :: "string \<Rightarrow> string" where
  "spec_class_field line =
     (case find_delim line of
        None \<Rightarrow> []
      | Some (hero_name, rest) \<Rightarrow> strip_whitespace rest)"

text \<open>
  A small pool, two teams and a hero file, used to instantiate the theorems: the pool
  is the one of the hero file with the classes in order of first appearance. In the
  drained session every hero has been drafted, and the waiting team still has an
  eligible class.
\<close>

definition example_session :: session where
  "example_session =
     \<lparr>hero_file_path = Some ''heroes.txt'',
      possible_heroes = Some [(''Warrior'', [''A'', ''B'']), (''Mage'', [''C''])],
      team_size = 3, allow_special_class = True\<rparr>"

definition example_team :: team where
  "example_team =
     \<lparr>name = ''red'', roll = 7, possible_classes = [''Warrior'', ''Mage''], heroes = []\<rparr>"



definition example_fs :: filesystem where
  "example_fs p =
     (if p = ''heroes.txt''
      then Some (''A, Warrior'' @ [newline] @ ''C, Mage'' @ [newline] @ ''B, Warrior'' @ [newline])
      else None)"

definition second_team :: team where
  "second_team =
     \<lparr>name = ''blue'', roll = 12, possible_classes = [''Warrior'', ''Mage''], heroes = []\<rparr>"

definition example_calls :: "(bool \<times> nat \<times> nat) list" where
  "example_calls = [(True, 4, 1), (False, 0, 0), (True, 0, 0)]"

text \<open>
  A hero file with a hero of the special class, and the session that has loaded it.
\<close>

definition special_fs :: filesystem where
  "special_fs p =
     (if p = ''heroes.txt''
      then Some (''A, Warrior'' @ [newline] @ ''Grognak, Special'' @ [newline]
                 @ ''C, Mage'' @ [newline] @ ''B, Warrior'' @ [newline])
      else None)"

definition special_session :: session where
  "special_session =
     \<lparr>hero_file_path = Some ''heroes.txt'',
      possible_heroes =
        Some [(''Warrior'', [''A'', ''B'']), (''Special'', [''Grognak'']), (''Mage'', [''C''])],
      team_size = 3, allow_special_class = True\<rparr>"

text \<open>
  The team that \<open>__init__\<close> builds in that session: the special class is eligible for it.
\<close>

definition early_team :: team where
  "early_team =
     \<lparr>name = ''red'', roll = 6, possible_classes = [''Warrior'', ''Special'', ''Mage''],
      heroes = []\<rparr>"

text \<open>A hero file in which a class name is followed by a space.\<close>

definition padded_fs :: filesystem where
  "padded_fs p =
     (if p = ''heroes.txt''
      then Some (''A, Warrior'' @ [newline] @ ''B, Warrior '' @ [newline])
      else None)"

section \<open>Team size\<close>

text \<open>
  C3. \<open>set_team_size\<close> tests the team size that is configured, not its argument: from
  the initial session, where the size is 3, the argument 5 is accepted and stored, and
  from then on every argument is rejected, 3 and 4 as well.
\<close>

theorem set_team_size_accepts_5:
  "set_team_size 5 initial_session = Inr (initial_session\<lparr>team_size := 5\<rparr>)
   \<and> set_team_size 3 (initial_session\<lparr>team_size := 5\<rparr>)
       = Inl (ValueError, initial_session\<lparr>team_size := 5\<rparr>)"
  by (simp add: set_team_size_def initial_session_def)

section \<open>Configuring and loading the hero file\<close>

text \<open>
  C8. \<open>set_hero_file\<close> raises exactly when its argument names no existing file, the
  exception is \<open>FileNotFoundError\<close>, and the configured path is then the one from before;
  otherwise the argument becomes the configured path. \<open>load_heroes\<close> raises
  \<open>PathNotSetError\<close> when no path was set and \<open>FileNotFoundError\<close> when the configured
  path names no file any more. Whatever \<open>load_heroes\<close> raises, the class variables, the
  pool among them, are as before the call.
\<close>

theorem hero_file_errors:
  "((\<exists>e s'. set_hero_file fs p s = Inl (e, s')) \<longleftrightarrow> fs p = None)
   \<and> (fs p = None \<longrightarrow> set_hero_file fs p s = Inl (FileNotFoundError, s))
   \<and> (fs p \<noteq> None \<longrightarrow> set_hero_file fs p s = Inr (s\<lparr>hero_file_path := Some p\<rparr>))
   \<and> (hero_file_path s = None \<longrightarrow> load_heroes fs s = Inl (PathNotSetError, s))
   \<and> (\<forall>q. hero_file_path s = Some q \<and> q \<noteq> [] \<and> fs q = None \<longrightarrow>
          load_heroes fs s = Inl (FileNotFoundError, s))
   \<and> (\<forall>e s'. load_heroes fs s = Inl (e, s') \<longrightarrow> s' = s)"
  by (auto simp: set_hero_file_def load_heroes_def split: option.splits sum.splits if_splits)

theorem hero_file_errors_witness:
  "set_hero_file example_fs ''missing.txt'' example_session = Inl (FileNotFoundError, example_session)
   \<and> set_hero_file example_fs ''heroes.txt'' initial_session
       = Inr (initial_session\<lparr>hero_file_path := Some ''heroes.txt''\<rparr>)
   \<and> load_heroes example_fs initial_session = Inl (PathNotSetError, initial_session)
   \<and> load_heroes (\<lambda>p. None) example_session = Inl (FileNotFoundError, example_session)"
  using hero_file_errors [of example_fs "''missing.txt''" example_session]
    hero_file_errors [of example_fs "''heroes.txt''" initial_session]
    hero_file_errors [of "\<lambda>p. None" "''heroes.txt''" example_session]
  by (simp add: example_fs_def example_session_def initial_session_def)

section \<open>Rolls\<close>

lemma randint_d20: "1 \<le> randint 1 20 g \<and> randint 1 20 g \<le> 20"
  by (simp add: randint_def randbelow_def)

lemma reroll_pair: "reroll g (s, t) = (s, t\<lparr>roll := randint 1 20 g\<rparr>)"
  by (simp add: reroll_def)

lemma fold_reroll:
  "fold reroll gs (s, t) = (s, t\<lparr>roll := roll (snd (fold reroll gs (s, t)))\<rparr>)
   \<and> (gs \<noteq> [] \<longrightarrow> 1 \<le> roll (snd (fold reroll gs (s, t)))
                    \<and> roll (snd (fold reroll gs (s, t))) \<le> 20)"
proof (induction gs arbitrary: t rule: rev_induct)
  case Nil
  show ?case by simp
next
  case (snoc g gs)
  obtain r where "fold reroll gs (s, t) = (s, t\<lparr>roll := r\<rparr>)"
    using snoc.IH [of t] by blast
  then show ?case
    using randint_d20 [of g] by (simp add: reroll_pair)
qed

text \<open>
  C9. The roll of a team that \<open>__init__\<close> has built lies between 1 and 20. \<open>reroll\<close>
  leaves the class variables and every attribute of the team but the roll as they
  are, and the new roll lies between 1 and 20; the same holds after any sequence of
  rerolls, for a team whose roll was in range or that has rerolled at least once.
\<close>

theorem roll_in_range_reroll_frame:
  "(\<forall>s' t'. init fs team_name g s = Inr (s', t') \<longrightarrow> 1 \<le> roll t' \<and> roll t' \<le> 20)
   \<and> (\<exists>r. reroll g (s, t) = (s, t\<lparr>roll := r\<rparr>) \<and> 1 \<le> r \<and> r \<le> 20)
   \<and> (\<exists>r. fold reroll gs (s, t) = (s, t\<lparr>roll := r\<rparr>)
          \<and> (1 \<le> roll t \<and> roll t \<le> 20 \<or> gs \<noteq> [] \<longrightarrow> 1 \<le> r \<and> r \<le> 20))"
proof (intro conjI allI impI)
  fix s' t'
  assume "init fs team_name g s = Inr (s', t')"
  then have "roll t' = randint 1 20 g"
    by (auto simp: init_def Let_def split: sum.splits option.splits if_splits)
  then show "1 \<le> roll t'" "roll t' \<le> 20"
    using randint_d20 [of g] by simp_all
next
  show "\<exists>r. reroll g (s, t) = (s, t\<lparr>roll := r\<rparr>) \<and> 1 \<le> r \<and> r \<le> 20"
    using randint_d20 [of g] by (auto simp: reroll_pair)
next
  let ?r = "roll (snd (fold reroll gs (s, t)))"
  have eq: "fold reroll gs (s, t) = (s, t\<lparr>roll := ?r\<rparr>)"
    and rng: "gs \<noteq> [] \<longrightarrow> 1 \<le> ?r \<and> ?r \<le> 20"
    using fold_reroll [of gs s t] by blast+
  have "gs = [] \<longrightarrow> ?r = roll t"
    by simp
  with eq rng show "\<exists>r. fold reroll gs (s, t) = (s, t\<lparr>roll := r\<rparr>)
          \<and> (1 \<le> roll t \<and> roll t \<le> 20 \<or> gs \<noteq> [] \<longrightarrow> 1 \<le> r \<and> r \<le> 20)"
    by (metis)
qed

theorem roll_in_range_reroll_frame_witness:
  "(\<exists>s' t'. init example_fs ''red'' 45 example_session = Inr (s', t') \<and> roll t' = 6)
   \<and> reroll 99 (example_session, example_team) = (example_session, example_team\<lparr>roll := 20\<rparr>)
   \<and> fold reroll [3, 99, 40] (example_session, example_team)
        = (example_session, example_team\<lparr>roll := 1\<rparr>)"
  using roll_in_range_reroll_frame [of example_fs "''red''" 45 example_session example_team "[3, 99, 40]"]
  by (simp add: init_def example_session_def example_team_def reroll_def randint_def randbelow_def)

section \<open>Choosing a hero\<close>

lemma count_list_replicate:
  "count_list (replicate n k) c = (if k = c then n else 0)"
  by (induction n) auto

lemma count_list_distinct:
  "distinct xs \<Longrightarrow> count_list xs c = (if c \<in> set xs then 1 else 0)"
  by (induction xs) auto

lemma keys_to_choose_from_Some:
  "set pc \<subseteq> fst ` set cat \<Longrightarrow>
   keys_to_choose_from (Some cat) pc =
     Inr (concat (map (\<lambda>key. replicate (length (the (map_of cat key))) key) pc))"
proof (induction pc)
  case Nil
  then show ?case by simp
next
  case (Cons key ks)
  then obtain hs where "map_of cat key = Some hs"
    by (metis (no_types, opaque_lifting) domD dom_map_of_conv_image_fst list.set_intros(1) subsetD)
  with Cons show ?case by simp
qed

lemma count_list_keys:
  "count_list (concat (map (\<lambda>key. replicate (n key) key) pc)) c = count_list pc c * n c"
  by (induction pc) (auto simp: count_list_replicate)



lemma select_hero_error:
  "select_hero g1 g2 s t = Inl e \<Longrightarrow> choose_hero g1 g2 (s, t) = Inl (e, s, t)"
  by (simp add: choose_hero_def)

lemma in_keys_lookup:
  "c \<in> fst ` set cat \<Longrightarrow> \<exists>hs. map_of cat c = Some hs"
  by (metis domD dom_map_of_conv_image_fst)

lemma keys_weighted:
  assumes "possible_heroes s = Some cat" "set pc \<subseteq> fst ` set cat"
  shows "keys_to_choose_from (possible_heroes s) pc =
           Inr (concat (map (\<lambda>key. replicate (length (available s key)) key) pc))"
proof -
  have "the (map_of cat key) = available s key" if "key \<in> set pc" for key
    using that assms by (auto simp: available_def dest!: in_keys_lookup)
  then have eq: "map (\<lambda>key. replicate (length (the (map_of cat key))) key) pc =
        map (\<lambda>key. replicate (length (available s key)) key) pc"
    by (intro map_cong) simp_all
  show ?thesis
    by (simp only: assms(1) keys_to_choose_from_Some [OF assms(2)] eq)
qed

lemma nth_keys_available:
  "i < length (concat (map (\<lambda>key. replicate (n key) key) pc)) \<Longrightarrow>
   concat (map (\<lambda>key. replicate (n key) key) pc) ! i \<in> set pc
   \<and> n (concat (map (\<lambda>key. replicate (n key) key) pc) ! i) \<noteq> 0"
proof -
  assume "i < length (concat (map (\<lambda>key. replicate (n key) key) pc))"
  then have "concat (map (\<lambda>key. replicate (n key) key) pc) ! i
               \<in> set (concat (map (\<lambda>key. replicate (n key) key) pc))"
    by (rule nth_mem)
  then show ?thesis by auto
qed

lemma keys_subset:
  "keys_to_choose_from pool pc = Inr ks \<Longrightarrow> set ks \<subseteq> set pc"
proof (induction pc arbitrary: ks)
  case Nil
  then show ?case by simp
next
  case (Cons key pc)
  then show ?case
    by (cases pool) (auto split: option.splits sum.splits)
qed

lemma choice_mem: "choice g xs = Inr x \<Longrightarrow> x \<in> set xs"
  by (auto simp: choice_def randbelow_def split: if_splits)

lemma select_hero_Inr:
  assumes "select_hero g1 g2 s t = Inr (key, hero)"
  shows "\<exists>cat hs. possible_heroes s = Some cat \<and> map_of cat key = Some hs
            \<and> hero \<in> set hs \<and> key \<in> set (possible_classes t)"
proof -
  from assms obtain ks cat hs where
    "keys_to_choose_from (possible_heroes s) (possible_classes t) = Inr ks"
    "choice g1 ks = Inr key" "possible_heroes s = Some cat" "map_of cat key = Some hs"
    "choice g2 hs = Inr hero"
    by (auto simp: select_hero_def split: sum.splits option.splits)
  then show ?thesis
    by (auto dest!: keys_subset choice_mem)
qed

lemma choose_hero_cases:
  "(\<exists>e. select_hero g1 g2 s t = Inl e \<and> choose_hero g1 g2 (s, t) = Inl (e, s, t))
   \<or> (\<exists>cat key hero hs.
         possible_heroes s = Some cat \<and> select_hero g1 g2 s t = Inr (key, hero)
       \<and> key \<in> set (possible_classes t) \<and> map_of cat key = Some hs \<and> hero \<in> set hs
       \<and> choose_hero g1 g2 (s, t) =
           Inr (s\<lparr>possible_heroes := Some (AList.update key (remove1 hero hs) cat)\<rparr>,
                t\<lparr>heroes := heroes t @ [hero],
                  possible_classes := remove1 key (possible_classes t)\<rparr>))"
proof (cases "select_hero g1 g2 s t")
  case (Inl e)
  then show ?thesis by (simp add: choose_hero_def)
next
  case (Inr p)
  obtain key hero where p: "p = (key, hero)" by (cases p)
  from Inr p obtain cat hs where "possible_heroes s = Some cat" "map_of cat key = Some hs"
    "hero \<in> set hs" "key \<in> set (possible_classes t)"
    by (auto dest: select_hero_Inr)
  with Inr p show ?thesis
    by (simp add: choose_hero_def)
qed

lemma choose_hero_Inl:
  "choose_hero g1 g2 (s, t) = Inl (e, s', t') \<Longrightarrow> s' = s \<and> t' = t"
  using choose_hero_cases [of g1 g2 s t] by auto

lemma weighted_pick:
  assumes pool: "possible_heroes s = Some cat"
      and sub: "set (possible_classes t) \<subseteq> fst ` set cat"
      and ks: "ks = concat (map (\<lambda>key. replicate (length (available s key)) key)
                 (possible_classes t))"
      and ne: "ks \<noteq> []"
  shows "\<exists>key hs hero s' t'.
            key = ks ! randbelow (length ks) g1
          \<and> hs = available s key \<and> hs \<noteq> []
          \<and> hero = hs ! randbelow (length hs) g2
          \<and> select_hero g1 g2 s t = Inr (key, hero)
          \<and> choose_hero g1 g2 (s, t) = Inr (s', t')
          \<and> heroes t' = heroes t @ [hero]
          \<and> possible_classes t' = remove1 key (possible_classes t)"
proof -
  define key where "key = ks ! randbelow (length ks) g1"
  define hs where "hs = available s key"
  define hero where "hero = hs ! randbelow (length hs) g2"
  have keys: "keys_to_choose_from (possible_heroes s) (possible_classes t) = Inr ks"
    unfolding ks using pool sub by (rule keys_weighted)
  from ne have "randbelow (length ks) g1 < length ks"
    by (simp add: randbelow_def)
  then have mem: "key \<in> set (possible_classes t)" and "length (available s key) \<noteq> 0"
    unfolding key_def ks by (auto dest: nth_keys_available)
  then have hs_ne: "hs \<noteq> []"
    by (simp add: hs_def)
  from mem sub obtain hs' where look: "map_of cat key = Some hs'"
    by (auto dest!: in_keys_lookup)
  with pool have hs': "hs' = hs"
    by (simp add: hs_def available_def)
  from hs_ne have "randbelow (length hs) g2 < length hs"
    by (simp add: randbelow_def)
  then have hero_mem: "hero \<in> set hs"
    unfolding hero_def by (rule nth_mem)
  have sel: "select_hero g1 g2 s t = Inr (key, hero)"
    using keys ne pool look hs' hs_ne
    by (simp add: select_hero_def choice_def key_def hero_def)
  have "choose_hero g1 g2 (s, t) =
          Inr (s\<lparr>possible_heroes := Some (AList.update key (remove1 hero hs) cat)\<rparr>,
               t\<lparr>heroes := heroes t @ [hero],
                 possible_classes := remove1 key (possible_classes t)\<rparr>)"
    using sel mem pool look hs' hero_mem
    by (simp add: choose_hero_def)
  with sel hs_ne show ?thesis
    unfolding key_def hs_def hero_def by simp
qed

lemma choose_hero_succeeds:
  assumes pool: "possible_heroes s = Some cat"
      and sub: "set (possible_classes t) \<subseteq> fst ` set cat"
      and some: "\<exists>c \<in> set (possible_classes t). available s c \<noteq> []"
  shows "\<exists>s' t' key hero. choose_hero g1 g2 (s, t) = Inr (s', t')
           \<and> heroes t' = heroes t @ [hero]
           \<and> possible_classes t' = remove1 key (possible_classes t)
           \<and> key \<in> set (possible_classes t)"
proof -
  define ks where "ks = concat (map (\<lambda>key. replicate (length (available s key)) key)
                 (possible_classes t))"
  from some have ne: "ks \<noteq> []"
    by (auto simp: ks_def)
  from weighted_pick [OF pool sub ks_def ne, of g1 g2] obtain s' t' key hero where
    *: "choose_hero g1 g2 (s, t) = Inr (s', t')" "heroes t' = heroes t @ [hero]"
       "possible_classes t' = remove1 key (possible_classes t)"
       "select_hero g1 g2 s t = Inr (key, hero)"
    by blast
  then have "key \<in> set (possible_classes t)"
    by (auto dest: select_hero_Inr)
  with * show ?thesis by blast
qed

lemma keys_missing:
  "\<not> set pc \<subseteq> fst ` set cat \<Longrightarrow> keys_to_choose_from (Some cat) pc = Inl KeyError"
proof (induction pc)
  case Nil
  then show ?case by simp
next
  case (Cons key pc)
  show ?case
  proof (cases "map_of cat key")
    case None
    then show ?thesis by simp
  next
    case (Some hs)
    then have "key \<in> fst ` set cat"
      by (metis domI dom_map_of_conv_image_fst)
    with Cons.prems have "\<not> set pc \<subseteq> fst ` set cat"
      by simp
    then have "keys_to_choose_from (Some cat) pc = Inl KeyError"
      by (rule Cons.IH)
    with Some show ?thesis by simp
  qed
qed

lemma early_init:
  "init special_fs ''red'' 45 special_session = Inr (special_session, early_team)"
  by (simp add: init_def special_session_def early_team_def randint_def randbelow_def)

text \<open>
  C1, as the claim states it, fails for a team built before the special class was
  excluded: its list of eligible classes is not empty and heroes of its other classes
  are left, but \<open>Special\<close> is no key of the pool any more, so line 174 raises \<open>KeyError\<close>
  and the call picks nothing.
\<close>

theorem stale_class_raises:
  "init special_fs ''red'' 45 special_session = Inr (special_session, early_team)
   \<and> possible_classes early_team \<noteq> []
   \<and> available (disallow_special special_session) ''Warrior'' = [''A'', ''B'']
   \<and> keys_to_choose_from (possible_heroes (disallow_special special_session))
        (possible_classes early_team) = Inl KeyError
   \<and> select_hero 4 1 (disallow_special special_session) early_team = Inl KeyError
   \<and> choose_hero 4 1 (disallow_special special_session, early_team)
       = Inl (KeyError, disallow_special special_session, early_team)"
  by (simp add: early_init)
     (simp add: special_session_def early_team_def disallow_special_def available_def
      choose_hero_def select_hero_def)

text \<open>
  C1, amended. When the pool is loaded and every eligible class of the team is a key
  of it, line 174 builds a list that holds every eligible class once for each hero
  left in that class's list, and no other class (a class listed \<open>n\<close> times as eligible
  is held \<open>n\<close> times for each hero; \<open>__init__\<close> lists every class once). When the list is
  empty the call raises \<open>IndexError\<close>. Otherwise the class is the entry of the list at
  the first random index, its list of heroes is not empty, the hero is the entry of
  that list at the second random index, and the call appends this hero to the team.
  When an eligible class is not a key of the loaded pool, line 174 raises \<open>KeyError\<close>,
  and when the pool is not loaded the call raises too; in both cases the class
  variables and the team stay as they are.
\<close>

theorem choose_hero_weighted:
  "(possible_heroes s = Some cat \<and> set (possible_classes t) \<subseteq> fst ` set cat \<longrightarrow>
      (\<exists>ks. keys_to_choose_from (possible_heroes s) (possible_classes t) = Inr ks
         \<and> (\<forall>c. count_list ks c = count_list (possible_classes t) c * length (available s c))
         \<and> (distinct (possible_classes t) \<longrightarrow>
              (\<forall>c. count_list ks c =
                    (if c \<in> set (possible_classes t) then length (available s c) else 0)))
         \<and> (ks = [] \<longrightarrow> choose_hero g h (s, t) = Inl (IndexError, s, t))
         \<and> (ks \<noteq> [] \<longrightarrow>
              (\<exists>key hs hero s' t'.
                  key = ks ! randbelow (length ks) g
                \<and> hs = available s key \<and> hs \<noteq> []
                \<and> hero = hs ! randbelow (length hs) h
                \<and> select_hero g h s t = Inr (key, hero)
                \<and> choose_hero g h (s, t) = Inr (s', t')
                \<and> heroes t' = heroes t @ [hero]))))
   \<and> (possible_heroes s = Some cat \<and> \<not> set (possible_classes t) \<subseteq> fst ` set cat \<longrightarrow>
        keys_to_choose_from (possible_heroes s) (possible_classes t) = Inl KeyError
      \<and> choose_hero g h (s, t) = Inl (KeyError, s, t))
   \<and> (possible_heroes s = None \<longrightarrow>
        choose_hero g h (s, t) =
          Inl (if possible_classes t = [] then IndexError else TypeError, s, t))"
proof (intro conjI impI)
  assume "possible_heroes s = Some cat \<and> set (possible_classes t) \<subseteq> fst ` set cat"
  then have pool: "possible_heroes s = Some cat"
    and sub: "set (possible_classes t) \<subseteq> fst ` set cat"
    by simp_all
  define ks where "ks = concat (map (\<lambda>key. replicate (length (available s key)) key)
                          (possible_classes t))"
  have keys: "keys_to_choose_from (possible_heroes s) (possible_classes t) = Inr ks"
    unfolding ks_def using pool sub by (rule keys_weighted)
  have cnt: "count_list ks c = count_list (possible_classes t) c * length (available s c)"
    for c
    unfolding ks_def by (rule count_list_keys)
  have cnt1: "count_list ks c =
               (if c \<in> set (possible_classes t) then length (available s c) else 0)"
    if "distinct (possible_classes t)" for c
    using that by (simp add: cnt count_list_distinct)
  have empty: "choose_hero g h (s, t) = Inl (IndexError, s, t)" if "ks = []"
  proof -
    from keys that have "select_hero g h s t = Inl IndexError"
      by (simp add: select_hero_def choice_def)
    then show ?thesis by (rule select_hero_error)
  qed
  have pick: "\<exists>key hs hero s' t'.
                    key = ks ! randbelow (length ks) g
                  \<and> hs = available s key \<and> hs \<noteq> []
                  \<and> hero = hs ! randbelow (length hs) h
                  \<and> select_hero g h s t = Inr (key, hero)
                  \<and> choose_hero g h (s, t) = Inr (s', t')
                  \<and> heroes t' = heroes t @ [hero]" if ne: "ks \<noteq> []"
    using weighted_pick [OF pool sub ks_def ne, of g h] by blast
  from keys cnt cnt1 empty pick
  show "\<exists>ks. keys_to_choose_from (possible_heroes s) (possible_classes t) = Inr ks
         \<and> (\<forall>c. count_list ks c = count_list (possible_classes t) c * length (available s c))
         \<and> (distinct (possible_classes t) \<longrightarrow>
              (\<forall>c. count_list ks c =
                    (if c \<in> set (possible_classes t) then length (available s c) else 0)))
         \<and> (ks = [] \<longrightarrow> choose_hero g h (s, t) = Inl (IndexError, s, t))
         \<and> (ks \<noteq> [] \<longrightarrow>
              (\<exists>key hs hero s' t'.
                  key = ks ! randbelow (length ks) g
                \<and> hs = available s key \<and> hs \<noteq> []
                \<and> hero = hs ! randbelow (length hs) h
                \<and> select_hero g h s t = Inr (key, hero)
                \<and> choose_hero g h (s, t) = Inr (s', t')
                \<and> heroes t' = heroes t @ [hero]))"
    by blast
next
  assume "possible_heroes s = Some cat \<and> \<not> set (possible_classes t) \<subseteq> fst ` set cat"
  then have keys: "keys_to_choose_from (possible_heroes s) (possible_classes t) = Inl KeyError"
    by (simp add: keys_missing)
  then show "keys_to_choose_from (possible_heroes s) (possible_classes t) = Inl KeyError" .
  from keys have "select_hero g h s t = Inl KeyError"
    by (simp add: select_hero_def)
  then show "choose_hero g h (s, t) = Inl (KeyError, s, t)"
    by (rule select_hero_error)
next
  assume none: "possible_heroes s = None"
  then have "select_hero g h s t =
      Inl (if possible_classes t = [] then IndexError else TypeError)"
    by (cases "possible_classes t") (simp_all add: select_hero_def choice_def)
  then show "choose_hero g h (s, t) =
          Inl (if possible_classes t = [] then IndexError else TypeError, s, t)"
    by (rule select_hero_error)
qed

theorem choose_hero_weighted_witness:
  "(\<exists>ks. keys_to_choose_from (possible_heroes example_session) (possible_classes example_team)
            = Inr ks
        \<and> count_list ks ''Warrior'' = 2 \<and> count_list ks ''Mage'' = 1
        \<and> count_list ks ''Rogue'' = 0)
   \<and> select_hero 4 1 example_session example_team = Inr (''Warrior'', ''B'')
   \<and> choose_hero 4 1 (disallow_special special_session, early_team)
       = Inl (KeyError, disallow_special special_session, early_team)
   \<and> choose_hero 4 1 (initial_session, early_team) = Inl (TypeError, initial_session, early_team)"
  using choose_hero_weighted [of example_session
      "[(''Warrior'', [''A'', ''B'']), (''Mage'', [''C''])]" example_team 4 1]
    choose_hero_weighted [of "disallow_special special_session"
      "[(''Warrior'', [''A'', ''B'']), (''Mage'', [''C''])]" early_team 4 1]
    choose_hero_weighted [of initial_session "[]" early_team 4 1]
  by (simp add: example_session_def example_team_def available_def select_hero_def
      choice_def randbelow_def special_session_def disallow_special_def early_team_def
      initial_session_def)



section \<open>Sequences of drafts by two teams\<close>

lemma lookup_in_pool:
  "map_of cat key = Some hs \<Longrightarrow> set hs \<subseteq> set (pool_heroes cat)"
  by (auto simp: pool_heroes_def dest!: map_of_SomeD)

lemma pool_heroes_remove:
  "map_of cat key = Some hs \<Longrightarrow> hero \<in> set hs \<Longrightarrow> distinct (pool_heroes cat) \<Longrightarrow>
   distinct (pool_heroes (AList.update key (remove1 hero hs) cat))
   \<and> set (pool_heroes (AList.update key (remove1 hero hs) cat)) = set (pool_heroes cat) - {hero}"
proof (induction cat)
  case Nil
  then show ?case by simp
next
  case (Cons p ps)
  obtain k v where p: "p = (k, v)" by (cases p)
  show ?case
  proof (cases "k = key")
    case True
    with Cons.prems p show ?thesis
      by (auto simp: pool_heroes_def)
  next
    case False
    with Cons.prems p have look: "map_of ps key = Some hs"
      by simp
    then have "set hs \<subseteq> set (pool_heroes ps)"
      by (rule lookup_in_pool)
    with Cons.prems(2) have "hero \<in> set (pool_heroes ps)"
      by auto
    with Cons.prems(3) p have "hero \<notin> set v" and "distinct (pool_heroes ps)"
      by (auto simp: pool_heroes_def)
    with Cons.IH [OF look Cons.prems(2)] Cons.prems(3) p False show ?thesis
      by (auto simp: pool_heroes_def)
  qed
qed

lemma choose_hero_keeps_distinct:
  assumes "choose_hero g1 g2 (s, t) = Inr (s', t')"
      and "possible_heroes s = Some cat"
      and "distinct (heroes t @ other @ pool_heroes cat)"
  shows "\<exists>cat'. possible_heroes s' = Some cat'
           \<and> distinct (heroes t' @ other @ pool_heroes cat')"
proof -
  from assms(1,2) obtain key hero hs where look: "map_of cat key = Some hs" "hero \<in> set hs"
    and s': "s' = s\<lparr>possible_heroes := Some (AList.update key (remove1 hero hs) cat)\<rparr>"
    and t': "t' = t\<lparr>heroes := heroes t @ [hero],
                  possible_classes := remove1 key (possible_classes t)\<rparr>"
    using choose_hero_cases [of g1 g2 s t] by auto
  let ?cat' = "AList.update key (remove1 hero hs) cat"
  from assms(3) have "distinct (pool_heroes cat)" by simp
  with look have d: "distinct (pool_heroes ?cat')"
    and e: "set (pool_heroes ?cat') = set (pool_heroes cat) - {hero}"
    by (auto dest: pool_heroes_remove)
  from look have "hero \<in> set (pool_heroes cat)"
    using lookup_in_pool by blast
  with assms(3) d e have "distinct ((heroes t @ [hero]) @ other @ pool_heroes ?cat')"
    by auto
  with s' t' show ?thesis by simp
qed

lemma drafts_no_hero_twice:
  "no_hero_twice (s, a, b) \<Longrightarrow> no_hero_twice (final_state (drafts cs (s, a, b)))"
proof (induction cs arbitrary: s a b)
  case Nil
  then show ?case by simp
next
  case (Cons c cs)
  obtain first g1 g2 where c: "c = (first, g1, g2)" by (cases c)
  from Cons.prems obtain cat where pool: "possible_heroes s = Some cat"
    and d: "distinct (heroes a @ heroes b @ pool_heroes cat)"
    by (auto simp: no_hero_twice_def split: option.splits)
  let ?t = "if first then a else b"
  show ?case
  proof (cases "choose_hero g1 g2 (s, ?t)")
    case (Inl x)
    obtain e s' t' where x: "x = (e, s', t')" by (cases x)
    with Inl have "s' = s" "t' = ?t"
      by (auto dest: choose_hero_Inl)
    with Inl x c Cons.prems show ?thesis
      by (cases first) simp_all
  next
    case (Inr y)
    obtain s' t' where y: "y = (s', t')" by (cases y)
    have "no_hero_twice (s', if first then t' else a, if first then b else t')"
    proof (cases first)
      case True
      with Inr y pool d obtain cat' where "possible_heroes s' = Some cat'"
        "distinct (heroes t' @ heroes b @ pool_heroes cat')"
        using choose_hero_keeps_distinct [of g1 g2 s a s' t' cat "heroes b"] by auto
      with True show ?thesis by (simp add: no_hero_twice_def)
    next
      case False
      from d have "distinct (heroes b @ heroes a @ pool_heroes cat)" by auto
      with False Inr y pool obtain cat' where "possible_heroes s' = Some cat'"
        "distinct (heroes t' @ heroes a @ pool_heroes cat')"
        using choose_hero_keeps_distinct [of g1 g2 s b s' t' cat "heroes a"] by auto
      with False show ?thesis by (auto simp: no_hero_twice_def)
    qed
    then have "no_hero_twice (final_state (drafts cs (s', if first then t' else a, if first then b else t')))"
      by (rule Cons.IH)
    with Inr y c show ?thesis
      by (auto split: sum.splits)
  qed
qed

lemma drafts_Cons_Inr:
  assumes "drafts ((first, g1, g2) # cs) (s, a, b) = Inr (w', log)"
  shows "\<exists>cat key hero hs log'.
           possible_heroes s = Some cat
         \<and> select_hero g1 g2 s (if first then a else b) = Inr (key, hero)
         \<and> key \<in> set (possible_classes (if first then a else b))
         \<and> map_of cat key = Some hs \<and> hero \<in> set hs
         \<and> log = (first, Inr (key, hero)) # log'
         \<and> drafts cs
              (s\<lparr>possible_heroes := Some (AList.update key (remove1 hero hs) cat)\<rparr>,
               if first then a\<lparr>heroes := heroes a @ [hero],
                               possible_classes := remove1 key (possible_classes a)\<rparr> else a,
               if first then b else b\<lparr>heroes := heroes b @ [hero],
                               possible_classes := remove1 key (possible_classes b)\<rparr>)
             = Inr (w', log')"
  using assms choose_hero_cases [of g1 g2 s "if first then a else b"]
  by (cases first) (auto split: sum.splits)

lemma drafts_team:
  assumes "drafts cs (s, a, b) = Inr ((s', a', b'), log)"
  shows "heroes (if who then a' else b') =
           heroes (if who then a else b) @ map snd (picked who log)
       \<and> length (picked who log) = calls_of who cs
       \<and> length (possible_classes (if who then a' else b')) + calls_of who cs =
           length (possible_classes (if who then a else b))
       \<and> set (map fst (picked who log)) \<union> set (possible_classes (if who then a' else b'))
           \<subseteq> set (possible_classes (if who then a else b))
       \<and> (distinct (possible_classes (if who then a else b)) \<longrightarrow>
            distinct (map fst (picked who log) @ possible_classes (if who then a' else b')))"
  using assms
proof (induction cs arbitrary: s a b log)
  case Nil
  then show ?case by (simp add: calls_of_def)
next
  case (Cons c cs)
  obtain first g1 g2 where c: "c = (first, g1, g2)" by (cases c)
  from Cons.prems c obtain cat key hero hs log' where
    key: "key \<in> set (possible_classes (if first then a else b))"
    and log: "log = (first, Inr (key, hero)) # log'"
    and rest: "drafts cs
              (s\<lparr>possible_heroes := Some (AList.update key (remove1 hero hs) cat)\<rparr>,
               if first then a\<lparr>heroes := heroes a @ [hero],
                               possible_classes := remove1 key (possible_classes a)\<rparr> else a,
               if first then b else b\<lparr>heroes := heroes b @ [hero],
                               possible_classes := remove1 key (possible_classes b)\<rparr>)
             = Inr ((s', a', b'), log')"
    using drafts_Cons_Inr [of first g1 g2 cs s a b "(s', a', b')" log] by blast
  note IH = Cons.IH [OF rest]
  show ?case
  proof (cases "first = who")
    case False
    with IH c log show ?thesis
      by (cases who) (auto simp: calls_of_def)
  next
    case True
    from key have len: "Suc (length (remove1 key (possible_classes (if first then a else b))))
        = length (possible_classes (if first then a else b))"
      by (simp add: length_remove1) (metis Suc_pred length_pos_if_in_set)
    have sub: "set (remove1 key (possible_classes (if first then a else b)))
        \<subseteq> set (possible_classes (if first then a else b))"
      by (rule set_remove1_subset)
    have dist: "distinct (possible_classes (if first then a else b)) \<Longrightarrow>
        distinct (remove1 key (possible_classes (if first then a else b)))
        \<and> key \<notin> set (remove1 key (possible_classes (if first then a else b)))"
      by simp
    from True IH c log key len sub dist show ?thesis
      by (cases who) (auto simp: calls_of_def)
  qed
qed

lemma example_run:
  "drafts example_calls (example_session, example_team, second_team) =
     Inr ((example_session\<lparr>possible_heroes := Some [(''Warrior'', []), (''Mage'', [])]\<rparr>,
           example_team\<lparr>possible_classes := [], heroes := [''B'', ''C'']\<rparr>,
           second_team\<lparr>possible_classes := [''Mage''], heroes := [''A'']\<rparr>),
          [(True, Inr (''Warrior'', ''B'')), (False, Inr (''Warrior'', ''A'')),
           (True, Inr (''Mage'', ''C''))])"
  by (simp add: example_calls_def example_session_def example_team_def second_team_def
      choose_hero_def select_hero_def choice_def randbelow_def)

text \<open>
  C2. Take a loaded pool and two teams such that no hero is listed twice among the
  heroes of the teams and the lists of the pool (as for two new teams and a pool built
  from a file that names every hero once). Then after any sequence of \<open>choose_hero\<close>
  calls by the two teams, in any order and also when the last call raised, no hero is
  listed twice among the heroes of the teams and the pool: the heroes appended to the
  two teams are pairwise different, and none of them is left in a list of the pool.
\<close>

theorem no_hero_drafted_twice:
  assumes "possible_heroes s = Some cat"
      and "distinct (heroes a @ heroes b @ pool_heroes cat)"
  shows "\<exists>s' a' b' cat'.
           final_state (drafts cs (s, a, b)) = (s', a', b')
         \<and> possible_heroes s' = Some cat'
         \<and> distinct (heroes a' @ heroes b' @ pool_heroes cat')
         \<and> (\<forall>log. drafts cs (s, a, b) = Inr ((s', a', b'), log) \<longrightarrow>
               heroes a' = heroes a @ map snd (picked True log)
             \<and> heroes b' = heroes b @ map snd (picked False log)
             \<and> distinct (map snd (picked True log) @ map snd (picked False log))
             \<and> set (map snd (picked True log) @ map snd (picked False log))
                 \<inter> set (pool_heroes cat') = {})"
proof -
  obtain s' a' b' where fin: "final_state (drafts cs (s, a, b)) = (s', a', b')"
    by (cases "final_state (drafts cs (s, a, b))")
  from assms have "no_hero_twice (s, a, b)"
    by (simp add: no_hero_twice_def)
  then have "no_hero_twice (final_state (drafts cs (s, a, b)))"
    by (rule drafts_no_hero_twice)
  with fin obtain cat' where pool': "possible_heroes s' = Some cat'"
    and d: "distinct (heroes a' @ heroes b' @ pool_heroes cat')"
    by (auto simp: no_hero_twice_def split: option.splits)
  have "heroes a' = heroes a @ map snd (picked True log)
      \<and> heroes b' = heroes b @ map snd (picked False log)
      \<and> distinct (map snd (picked True log) @ map snd (picked False log))
      \<and> set (map snd (picked True log) @ map snd (picked False log))
          \<inter> set (pool_heroes cat') = {}"
    if run: "drafts cs (s, a, b) = Inr ((s', a', b'), log)" for log
  proof -
    from drafts_team [OF run, of True] drafts_team [OF run, of False]
    have "heroes a' = heroes a @ map snd (picked True log)"
      and "heroes b' = heroes b @ map snd (picked False log)"
      by simp_all
    with d show ?thesis by auto
  qed
  with fin pool' d show ?thesis by blast
qed

theorem no_hero_drafted_twice_witness:
  "\<exists>s' a' b'.
     final_state (drafts example_calls (example_session, example_team, second_team)) = (s', a', b')
     \<and> heroes a' = [''B'', ''C''] \<and> heroes b' = [''A'']
     \<and> possible_heroes s' = Some [(''Warrior'', []), (''Mage'', [])]
     \<and> distinct (heroes a' @ heroes b')"
  using no_hero_drafted_twice [of example_session
      "[(''Warrior'', [''A'', ''B'']), (''Mage'', [''C''])]" example_team second_team
      example_calls] example_run
  by (simp add: example_session_def example_team_def second_team_def pool_heroes_def)

lemma can_draft_succeeds:
  assumes "can_draft s t"
  shows "\<exists>s' t'. choose_hero g h (s, t) = Inr (s', t')"
proof -
  from assms obtain cat where "possible_heroes s = Some cat"
    "set (possible_classes t) \<subseteq> fst ` set cat"
    "\<exists>c \<in> set (possible_classes t). available s c \<noteq> []"
    by (auto simp: can_draft_def split: option.splits)
  then show ?thesis
    using choose_hero_succeeds [of s cat t g h] by blast
qed

lemma each_can_draft_returns:
  "each_can_draft cs (s, a, b) \<Longrightarrow> \<exists>w log. drafts cs (s, a, b) = Inr (w, log)"
proof (induction cs arbitrary: s a b)
  case Nil
  show ?case by simp
next
  case (Cons c cs)
  obtain first g h where c: "c = (first, g, h)" by (cases c)
  let ?t = "if first then a else b"
  from Cons.prems c have can: "can_draft s ?t"
    by simp
  then obtain s' t' where step: "choose_hero g h (s, ?t) = Inr (s', t')"
    using can_draft_succeeds by blast
  with Cons.prems c
  have "each_can_draft cs (s', if first then t' else a, if first then b else t')"
    by simp
  then obtain w log where
    "drafts cs (s', if first then t' else a, if first then b else t') = Inr (w, log)"
    using Cons.IH by blast
  with step c show ?case by (cases w) simp
qed

text \<open>
  C5, as the claim states it, fails for a team built before the special class was
  excluded: an eligible class of it has heroes left, yet its call raises \<open>KeyError\<close>
  and the team has no hero after it.
\<close>

theorem stale_class_blocks_draft:
  "init special_fs ''red'' 45 special_session = Inr (special_session, early_team)
   \<and> ''Warrior'' \<in> set (possible_classes early_team)
   \<and> available (disallow_special special_session) ''Warrior'' \<noteq> []
   \<and> choose_hero 0 0 (disallow_special special_session, early_team)
       = Inl (KeyError, disallow_special special_session, early_team)
   \<and> heroes early_team = []"
  by (simp add: early_init)
     (simp add: special_session_def early_team_def disallow_special_def available_def
      choose_hero_def select_hero_def)

text \<open>
  C5, amended. Take a sequence of \<open>choose_hero\<close> calls by two teams in which every call
  is made in a state where the pool is loaded, the eligible classes of the calling
  team are keys of the pool and one of them has a hero left. Then every call returns,
  and a team that made \<open>N\<close> of the calls has \<open>N\<close> more heroes and \<open>N\<close> fewer eligible
  classes than before; the heroes it gained are the ones its calls picked, and when its
  eligible classes were pairwise different, as \<open>__init__\<close> builds them, so are the
  classes of these heroes, none of which is eligible for the team any more. The
  configured team size plays no part.
\<close>

theorem one_hero_per_class:
  assumes "each_can_draft cs (s, a, b)"
  shows "\<exists>s' a' b' log.
           drafts cs (s, a, b) = Inr ((s', a', b'), log)
         \<and> length (heroes (if who then a' else b')) =
             length (heroes (if who then a else b)) + calls_of who cs
         \<and> length (possible_classes (if who then a' else b')) + calls_of who cs =
             length (possible_classes (if who then a else b))
         \<and> heroes (if who then a' else b') =
             heroes (if who then a else b) @ map snd (picked who log)
         \<and> length (picked who log) = calls_of who cs
         \<and> (distinct (possible_classes (if who then a else b)) \<longrightarrow>
               distinct (map fst (picked who log))
             \<and> set (map fst (picked who log))
                 \<inter> set (possible_classes (if who then a' else b')) = {})"
proof -
  from assms obtain w log where "drafts cs (s, a, b) = Inr (w, log)"
    using each_can_draft_returns by blast
  then obtain s' a' b' where run: "drafts cs (s, a, b) = Inr ((s', a', b'), log)"
    by (cases w) auto
  from drafts_team [OF run, of who]
  have "length (heroes (if who then a' else b')) =
             length (heroes (if who then a else b)) + calls_of who cs"
    and "length (possible_classes (if who then a' else b')) + calls_of who cs =
             length (possible_classes (if who then a else b))"
    and "heroes (if who then a' else b') =
             heroes (if who then a else b) @ map snd (picked who log)"
    and "length (picked who log) = calls_of who cs"
    and "distinct (possible_classes (if who then a else b)) \<longrightarrow>
               distinct (map fst (picked who log))
             \<and> set (map fst (picked who log))
                 \<inter> set (possible_classes (if who then a' else b')) = {}"
    by auto
  with run show ?thesis by blast
qed

theorem one_hero_per_class_witness:
  "\<exists>s' a' b' log.
     drafts example_calls (example_session, example_team, second_team) = Inr ((s', a', b'), log)
     \<and> calls_of True example_calls = 2
     \<and> length (heroes a') = 2 \<and> possible_classes a' = []
     \<and> picked True log = [(''Warrior'', ''B''), (''Mage'', ''C'')]"
proof -
  have "each_can_draft example_calls (example_session, example_team, second_team)"
    by (simp add: example_calls_def example_session_def example_team_def second_team_def
        can_draft_def available_def choose_hero_def select_hero_def choice_def
        randbelow_def)
  from one_hero_per_class [OF this, of True] example_run show ?thesis
    by (simp add: example_calls_def calls_of_def)
qed

section \<open>Excluding the special class\<close>

lemma disallow_special_eq:
  "disallow_special s =
     s\<lparr>possible_heroes := map_option (AList.delete ''Special'') (possible_heroes s),
       allow_special_class := False\<rparr>"
proof (cases "possible_heroes s")
  case None
  then show ?thesis
    by (simp add: disallow_special_def)
next
  case (Some cat)
  have "''Special'' \<notin> fst ` set cat \<Longrightarrow> AList.delete ''Special'' cat = cat"
    by (rule AList.delete_id)
  with Some show ?thesis
    by (auto simp: disallow_special_def Let_def)
qed


lemma disallow_special_idem:
  "disallow_special (disallow_special s) = disallow_special s"
  by (cases "possible_heroes s") (simp_all add: disallow_special_eq AList.delete_idem)

lemma load_heroes_Inr:
  "load_heroes fs s = Inr s1 \<Longrightarrow> \<exists>cat. s1 = s\<lparr>possible_heroes := Some cat\<rparr>"
  by (auto simp: load_heroes_def split: option.splits if_splits sum.splits)

lemma delete_absent: "''Special'' \<notin> set (map fst cat) \<Longrightarrow> AList.delete ''Special'' cat = cat"
  by (rule AList.delete_id) simp

lemma init_without_special:
  assumes off: "\<not> allow_special_class s" and run: "init fs team_name g s = Inr (s', t)"
  shows "\<exists>cat. possible_heroes s' = Some (AList.delete ''Special'' cat)
           \<and> possible_classes t = map fst (AList.delete ''Special'' cat)
           \<and> (possible_heroes s = Some cat
              \<or> possible_heroes s = None
                \<and> load_heroes fs s = Inr (s\<lparr>possible_heroes := Some cat\<rparr>))"
proof (cases "possible_heroes s")
  case (Some cat)
  with off run have "possible_heroes s' = Some (AList.delete ''Special'' cat)"
    "possible_classes t = map fst (AList.delete ''Special'' cat)"
    by (auto simp: init_def Let_def delete_absent split: if_splits)
  with Some show ?thesis by blast
next
  case None
  with run obtain s1 where load: "load_heroes fs s = Inr s1"
    by (auto simp: init_def split: sum.splits)
  then obtain cat where s1: "s1 = s\<lparr>possible_heroes := Some cat\<rparr>"
    by (auto dest: load_heroes_Inr)
  with None off run load have "possible_heroes s' = Some (AList.delete ''Special'' cat)"
    "possible_classes t = map fst (AList.delete ''Special'' cat)"
    by (auto simp: init_def Let_def delete_absent split: if_splits)
  with None load s1 show ?thesis by blast
qed

lemma pool_update_subset:
  "map_of cat key = Some hs \<Longrightarrow> set hs' \<subseteq> set hs \<Longrightarrow>
   set (pool_heroes (AList.update key hs' cat)) \<subseteq> set (pool_heroes cat)"
proof (induction cat)
  case Nil
  then show ?case by simp
next
  case (Cons p ps)
  then show ?case
    by (cases p) (auto simp: pool_heroes_def split: if_splits)
qed


lemma drafts_picks_in_pool:
  assumes "drafts cs (s, a, b) = Inr (w, log)" "possible_heroes s = Some cat"
  shows "\<forall>x \<in> set log.
           \<exists>key hero. snd x = Inr (key, hero) \<and> key \<in> fst ` set cat
                      \<and> hero \<in> set (pool_heroes cat)"
  using assms
proof (induction cs arbitrary: s a b log cat)
  case Nil
  then show ?case by simp
next
  case (Cons c cs)
  obtain first g1 g2 where c: "c = (first, g1, g2)" by (cases c)
  from Cons.prems(1) c have "drafts ((first, g1, g2) # cs) (s, a, b) = Inr (w, log)"
    by simp
  from drafts_Cons_Inr [OF this] Cons.prems(2) obtain key hero hs log' where
    look: "map_of cat key = Some hs" and hero: "hero \<in> set hs"
    and log: "log = (first, Inr (key, hero)) # log'"
    and rest: "drafts cs
              (s\<lparr>possible_heroes := Some (AList.update key (remove1 hero hs) cat)\<rparr>,
               if first then a\<lparr>heroes := heroes a @ [hero],
                               possible_classes := remove1 key (possible_classes a)\<rparr> else a,
               if first then b else b\<lparr>heroes := heroes b @ [hero],
                               possible_classes := remove1 key (possible_classes b)\<rparr>)
             = Inr (w, log')"
    by force
  let ?cat' = "AList.update key (remove1 hero hs) cat"
  from look have key: "key \<in> fst ` set cat"
    by (metis domI dom_map_of_conv_image_fst)
  then have keys': "fst ` set ?cat' = fst ` set cat"
    by (auto simp: AList.dom_update)
  have "set (remove1 hero hs) \<subseteq> set hs"
    by (rule set_remove1_subset)
  with look have pool': "set (pool_heroes ?cat') \<subseteq> set (pool_heroes cat)"
    by (rule pool_update_subset)
  from look hero have here: "hero \<in> set (pool_heroes cat)"
    using lookup_in_pool by blast
  have IH: "\<forall>x \<in> set log'.
           \<exists>key hero. snd x = Inr (key, hero) \<and> key \<in> fst ` set ?cat'
                      \<and> hero \<in> set (pool_heroes ?cat')"
    by (rule Cons.IH [OF rest]) simp
  show ?case
  proof
    fix x
    assume "x \<in> set log"
    with log consider "x = (first, Inr (key, hero))" | "x \<in> set log'"
      by auto
    then show "\<exists>key hero. snd x = Inr (key, hero) \<and> key \<in> fst ` set cat
                      \<and> hero \<in> set (pool_heroes cat)"
    proof cases
      case 1
      with key here show ?thesis by simp
    next
      case 2
      with IH obtain k h where "snd x = Inr (k, h)" "k \<in> fst ` set ?cat'"
        "h \<in> set (pool_heroes ?cat')"
        by blast
      with keys' pool' show ?thesis by blast
    qed
  qed
qed

lemma delete_disjoint:
  "distinct (pool_heroes cat) \<Longrightarrow> map_of cat k = Some hs \<Longrightarrow>
   set (pool_heroes (AList.delete k cat)) \<inter> set hs = {}"
proof (induction cat)
  case Nil
  then show ?case by simp
next
  case (Cons p ps)
  obtain k' v where p: "p = (k', v)" by (cases p)
  have sub: "set (pool_heroes (AList.delete k ps)) \<subseteq> set (pool_heroes ps)"
    by (auto simp: pool_heroes_def AList.delete_eq)
  show ?case
  proof (cases "k' = k")
    case True
    with Cons.prems p sub show ?thesis
      by (auto simp: pool_heroes_def)
  next
    case False
    with Cons.prems p have look: "map_of ps k = Some hs" by simp
    then have "set hs \<subseteq> set (pool_heroes ps)"
      by (rule lookup_in_pool)
    with Cons.prems p False Cons.IH [OF _ look] show ?thesis
      by (auto simp: pool_heroes_def)
  qed
qed

lemma special_run:
  "drafts example_calls (disallow_special special_session, example_team, second_team) =
     Inr ((special_session\<lparr>possible_heroes := Some [(''Warrior'', []), (''Mage'', [])],
                            allow_special_class := False\<rparr>,
           example_team\<lparr>possible_classes := [], heroes := [''B'', ''C'']\<rparr>,
           second_team\<lparr>possible_classes := [''Mage''], heroes := [''A'']\<rparr>),
          [(True, Inr (''Warrior'', ''B'')), (False, Inr (''Warrior'', ''A'')),
           (True, Inr (''Mage'', ''C''))])"
  by (simp add: example_calls_def special_session_def example_team_def second_team_def
      disallow_special_def choose_hero_def select_hero_def choice_def randbelow_def)

lemma special_init:
  "init special_fs ''red'' 45
     (disallow_special (initial_session\<lparr>hero_file_path := Some ''heroes.txt''\<rparr>)) =
     Inr (special_session\<lparr>possible_heroes :=
            Some [(''Warrior'', [''A'', ''B'']), (''Mage'', [''C''])],
            allow_special_class := False\<rparr>,
          example_team\<lparr>roll := 6\<rparr>)"
  by (simp add: init_def load_heroes_def special_fs_def initial_session_def
      special_session_def example_team_def newline_def parse_line_def split_delim.simps
      strip_newline_def add_hero_def disallow_special_def randint_def randbelow_def)

text \<open>
  C6, as the claim states it, fails when the request comes before an explicit
  \<open>load_heroes\<close>: \<open>load_heroes\<close> does not read the flag, so the pool it builds holds the
  class \<open>Special\<close> and its heroes.
\<close>

theorem special_survives_explicit_load:
  "load_heroes special_fs
     (disallow_special (initial_session\<lparr>hero_file_path := Some ''heroes.txt''\<rparr>)) =
     Inr (special_session\<lparr>allow_special_class := False\<rparr>)
   \<and> available (special_session\<lparr>allow_special_class := False\<rparr>) ''Special'' = [''Grognak'']"
  by (simp add: load_heroes_def special_fs_def initial_session_def special_session_def
      newline_def parse_line_def split_delim.simps strip_newline_def add_hero_def
      disallow_special_def available_def)

text \<open>
  C6, amended. \<open>disallow_special\<close> clears the flag and deletes the key \<open>Special\<close>, with
  its heroes, from a pool that is loaded; the other classes keep their heroes, and a
  second call changes nothing. A pool that is loaded after the request is built with
  the class; \<open>__init__\<close>, which runs with the flag off, deletes the key before it takes
  the keys of the pool as the eligible classes of the new team. From a pool with the
  key deleted, whose hero names were all different, no call of \<open>choose_hero\<close> by either
  team, whatever its eligible classes, picks the class \<open>Special\<close> or one of its heroes.
\<close>

theorem special_class_excluded:
  "disallow_special s =
     s\<lparr>possible_heroes := map_option (AList.delete ''Special'') (possible_heroes s),
       allow_special_class := False\<rparr>
   \<and> available (disallow_special s) ''Special'' = []
   \<and> (\<forall>c. c \<noteq> ''Special'' \<longrightarrow> available (disallow_special s) c = available s c)
   \<and> disallow_special (disallow_special s) = disallow_special s
   \<and> (\<not> allow_special_class s_off \<and> init fs team_name g s_off = Inr (s_new, t) \<longrightarrow>
        ''Special'' \<notin> set (possible_classes t)
      \<and> (\<exists>cat. possible_heroes s_new = Some (AList.delete ''Special'' cat)
              \<and> possible_classes t = map fst (AList.delete ''Special'' cat)
              \<and> (possible_heroes s_off = Some cat
                 \<or> possible_heroes s_off = None
                   \<and> load_heroes fs s_off = Inr (s_off\<lparr>possible_heroes := Some cat\<rparr>))))
   \<and> (possible_heroes s_play = Some (AList.delete ''Special'' pool)
      \<and> distinct (pool_heroes pool) \<and> drafts cs (s_play, a, b) = Inr (w, log) \<longrightarrow>
        (\<forall>x \<in> set log. \<exists>key hero. snd x = Inr (key, hero) \<and> key \<noteq> ''Special''
                           \<and> (\<forall>hs. map_of pool ''Special'' = Some hs \<longrightarrow> hero \<notin> set hs)))"
proof (intro conjI impI allI)
  show eq: "disallow_special s =
     s\<lparr>possible_heroes := map_option (AList.delete ''Special'') (possible_heroes s),
       allow_special_class := False\<rparr>"
    by (rule disallow_special_eq)
  show "available (disallow_special s) ''Special'' = []"
    by (cases "possible_heroes s")
       (simp_all add: eq available_def AList.delete_conv' split: option.splits)
  show "available (disallow_special s) c = available s c" if "c \<noteq> ''Special''" for c
    using that by (cases "possible_heroes s") (simp_all add: eq available_def)
  show "disallow_special (disallow_special s) = disallow_special s"
    by (rule disallow_special_idem)
next
  assume "\<not> allow_special_class s_off \<and> init fs team_name g s_off = Inr (s_new, t)"
  then have off: "\<not> allow_special_class s_off"
    and run: "init fs team_name g s_off = Inr (s_new, t)"
    by simp_all
  from init_without_special [OF off run] obtain cat where
    cat: "possible_heroes s_new = Some (AList.delete ''Special'' cat)"
      "possible_classes t = map fst (AList.delete ''Special'' cat)"
      "possible_heroes s_off = Some cat
       \<or> possible_heroes s_off = None
         \<and> load_heroes fs s_off = Inr (s_off\<lparr>possible_heroes := Some cat\<rparr>)"
    by blast
  then show "''Special'' \<notin> set (possible_classes t)"
    by (simp add: AList.delete_keys)
  from cat show "\<exists>cat. possible_heroes s_new = Some (AList.delete ''Special'' cat)
              \<and> possible_classes t = map fst (AList.delete ''Special'' cat)
              \<and> (possible_heroes s_off = Some cat
                 \<or> possible_heroes s_off = None
                   \<and> load_heroes fs s_off = Inr (s_off\<lparr>possible_heroes := Some cat\<rparr>))"
    by blast
next
  assume "possible_heroes s_play = Some (AList.delete ''Special'' pool)
      \<and> distinct (pool_heroes pool) \<and> drafts cs (s_play, a, b) = Inr (w, log)"
  then have pool: "possible_heroes s_play = Some (AList.delete ''Special'' pool)"
    and d: "distinct (pool_heroes pool)" and run: "drafts cs (s_play, a, b) = Inr (w, log)"
    by simp_all
  note picks = drafts_picks_in_pool [OF run pool]
  show "\<forall>x \<in> set log. \<exists>key hero. snd x = Inr (key, hero) \<and> key \<noteq> ''Special''
                           \<and> (\<forall>hs. map_of pool ''Special'' = Some hs \<longrightarrow> hero \<notin> set hs)"
  proof
    fix x
    assume "x \<in> set log"
    with picks obtain key hero where x: "snd x = Inr (key, hero)"
      and key: "key \<in> fst ` set (AList.delete ''Special'' pool)"
      and hero: "hero \<in> set (pool_heroes (AList.delete ''Special'' pool))"
      by blast
    from key have "key \<noteq> ''Special''"
      using AList.delete_notin_dom by metis
    moreover have "hero \<notin> set hs" if "map_of pool ''Special'' = Some hs" for hs
      using delete_disjoint [OF d that] hero by blast
    ultimately show "\<exists>key hero. snd x = Inr (key, hero) \<and> key \<noteq> ''Special''
                           \<and> (\<forall>hs. map_of pool ''Special'' = Some hs \<longrightarrow> hero \<notin> set hs)"
      using x by blast
  qed
qed

theorem special_class_excluded_witness:
  "possible_heroes (disallow_special special_session)
     = Some [(''Warrior'', [''A'', ''B'']), (''Mage'', [''C''])]
   \<and> (\<exists>s_new t. init special_fs ''red'' 45
          (disallow_special (initial_session\<lparr>hero_file_path := Some ''heroes.txt''\<rparr>))
            = Inr (s_new, t)
        \<and> possible_classes t = [''Warrior'', ''Mage''])
   \<and> (\<exists>w log. drafts example_calls (disallow_special special_session, example_team, second_team)
          = Inr (w, log)
        \<and> map snd log = [Inr (''Warrior'', ''B''), Inr (''Warrior'', ''A''), Inr (''Mage'', ''C'')])"
  using special_class_excluded [where s = special_session and fs = special_fs
      and team_name = "''red''" and g = 45
      and s_off = "disallow_special (initial_session\<lparr>hero_file_path := Some ''heroes.txt''\<rparr>)"
      and s_play = "disallow_special special_session"
      and pool = "[(''Warrior'', [''A'', ''B'']), (''Special'', [''Grognak'']), (''Mage'', [''C''])]"
      and cs = example_calls and a = example_team and b = second_team]
    special_run special_init
  by (simp add: special_session_def example_team_def disallow_special_def pool_heroes_def)

section \<open>Parsing the hero file\<close>

lemma has_delim_append: "has_delim (u @ '', '' @ v)"
proof (induction u rule: has_delim.induct)
  case (1 a b xs)
  then show ?case by simp
next
  case (2 a)
  show ?case by simp
next
  case 3
  show ?case by simp
qed

lemma find_delim_Some:
  "find_delim s = Some (h, t) \<Longrightarrow> s = h @ '', '' @ t \<and> \<not> has_delim h"
proof (induction s arbitrary: h t rule: find_delim.induct)
  case (1 a b xs)
  show ?case
  proof (cases "a = CHR '','' \<and> b = CHR '' ''")
    case True
    with 1 show ?thesis by simp
  next
    case False
    with "1.prems" obtain h' where f: "find_delim (b # xs) = Some (h', t)" and h: "h = a # h'"
      by (auto split: option.splits)
    from "1.IH" [OF False f] have eq: "b # xs = h' @ '', '' @ t" and nd: "\<not> has_delim h'"
      by simp_all
    from eq have "h' = [] \<and> b = CHR '','' \<or> (\<exists>h''. h' = b # h'')"
      by (cases h') auto
    with False nd h have "\<not> has_delim h"
      by auto
    with eq h show ?thesis by simp
  qed
next
  case (2 a)
  then show ?case by simp
next
  case 3
  then show ?case by simp
qed

lemma find_delim_None: "find_delim s = None \<longleftrightarrow> \<not> has_delim s"
  by (induction s rule: find_delim.induct) (auto split: option.splits)

lemma has_delim_iff: "has_delim s \<longleftrightarrow> (\<exists>u v. s = u @ '', '' @ v)"
proof
  assume "has_delim s"
  then obtain h t where "find_delim s = Some (h, t)"
    using find_delim_None [of s] by (cases "find_delim s") auto
  then show "\<exists>u v. s = u @ '', '' @ v"
    by (blast dest: find_delim_Some)
next
  assume "\<exists>u v. s = u @ '', '' @ v"
  then show "has_delim s"
    by (auto simp: has_delim_append simp del: append.simps)
qed

lemma find_delim_first:
  "\<not> has_delim h \<Longrightarrow> find_delim (h @ '', '' @ r) = Some (h, r)"
proof (induction h rule: has_delim.induct)
  case (1 a b xs)
  then show ?case by simp
next
  case (2 a)
  show ?case by simp
next
  case 3
  show ?case by simp
qed

lemma split_delim_first:
  "\<not> has_delim h \<Longrightarrow> split_delim (h @ '', '' @ r) = h # split_delim r"
  by (subst split_delim.simps) (simp add: find_delim_first del: append.simps)

lemma split_delim_last: "\<not> has_delim r \<Longrightarrow> split_delim r = [r]"
  by (subst split_delim.simps) (simp add: find_delim_None [THEN iffD2])

lemma parse_line_one:
  "\<not> has_delim h \<Longrightarrow> \<not> has_delim r \<Longrightarrow>
   parse_line (h @ '', '' @ r) = Inr (h, strip_newline r)"
  by (simp add: parse_line_def split_delim_first split_delim_last del: append.simps)

lemma parse_line_more:
  "\<not> has_delim h \<Longrightarrow> \<not> has_delim c \<Longrightarrow>
   parse_line (h @ '', '' @ c @ '', '' @ tail) = Inr (h, strip_newline c)"
  by (simp add: parse_line_def split_delim_first del: append.simps)

lemma strip_newline_infix: "\<exists>p q. s = p @ strip_newline s @ q"
proof -
  let ?P = "\<lambda>c. c = newline"
  let ?x = "dropWhile ?P s"
  have "rev (takeWhile ?P (rev ?x) @ dropWhile ?P (rev ?x)) = rev (rev ?x)"
    by (simp only: takeWhile_dropWhile_id)
  then have "strip_newline s @ rev (takeWhile ?P (rev ?x)) = ?x"
    by (simp only: rev_append rev_rev_ident strip_newline_def)
  moreover have "takeWhile ?P s @ ?x = s"
    by (rule takeWhile_dropWhile_id)
  ultimately have "s = takeWhile ?P s @ strip_newline s @ rev (takeWhile ?P (rev ?x))"
    by (simp only:)
  then show ?thesis by blast
qed

lemma strip_newline_no_delim: "\<not> has_delim s \<Longrightarrow> \<not> has_delim (strip_newline s)"
proof
  assume no: "\<not> has_delim s" and "has_delim (strip_newline s)"
  then obtain u v where uv: "strip_newline s = u @ '', '' @ v"
    by (auto simp: has_delim_iff)
  obtain p q where "s = p @ strip_newline s @ q"
    using strip_newline_infix by blast
  with uv have "s = (p @ u) @ '', '' @ (v @ q)"
    by simp
  then have "has_delim s"
    unfolding has_delim_iff by blast
  with no show False by simp
qed

lemma dropWhile_newline_delim:
  "dropWhile (\<lambda>c. c = newline) (u @ '', '' @ v) = dropWhile (\<lambda>c. c = newline) u @ '', '' @ v"
  by (simp add: dropWhile_append newline_def)

lemma strip_newline_delim: "has_delim s \<Longrightarrow> has_delim (strip_newline s)"
proof -
  let ?P = "\<lambda>c. c = newline"
  assume "has_delim s"
  then obtain u v where s: "s = u @ '', '' @ v"
    by (auto simp: has_delim_iff)
  let ?u = "dropWhile ?P u"
  have "rev (dropWhile ?P s) = rev v @ [CHR '' '', CHR '',''] @ rev ?u"
    unfolding s dropWhile_newline_delim by simp
  then have "dropWhile ?P (rev (dropWhile ?P s)) =
      dropWhile ?P (rev v) @ [CHR '' '', CHR '',''] @ rev ?u"
    by (simp add: dropWhile_append newline_def)
  then have "strip_newline s = ?u @ '', '' @ rev (dropWhile ?P (rev v))"
    by (simp add: strip_newline_def)
  then show ?thesis
    unfolding has_delim_iff by blast
qed

text \<open>
  C10. In a line with the delimiter at least twice, \<open>h\<close> being the text before the first
  and \<open>c\<close> the text between the first and the second, \<open>split\<close> yields \<open>h\<close>, \<open>c\<close> and the
  segments of what follows; the loop takes \<open>h\<close> as hero and \<open>c\<close>, stripped of newlines,
  as class, whatever follows the second delimiter. This class differs from the
  stripped remainder of the line after the first delimiter.
\<close>

theorem extra_segments_discarded:
  assumes "\<not> has_delim h" and "\<not> has_delim c"
  shows "split_delim (h @ '', '' @ c @ '', '' @ tail) = h # c # split_delim tail
       \<and> parse_line (h @ '', '' @ c @ '', '' @ tail) = Inr (h, strip_newline c)
       \<and> strip_newline c \<noteq> strip_newline (c @ '', '' @ tail)
       \<and> load_lines all_heroes [h @ '', '' @ c @ '', '' @ tail] =
           Inr (add_hero all_heroes (h, strip_newline c))"
proof -
  have split: "split_delim (h @ '', '' @ c @ '', '' @ tail) = h # c # split_delim tail"
    using assms by (simp add: split_delim_first del: append.simps)
  have parse: "parse_line (h @ '', '' @ c @ '', '' @ tail) = Inr (h, strip_newline c)"
    using assms by (rule parse_line_more)
  have "has_delim (c @ '', '' @ tail)"
    by (rule has_delim_append)
  then have "has_delim (strip_newline (c @ '', '' @ tail))"
    by (rule strip_newline_delim)
  moreover from assms(2) have "\<not> has_delim (strip_newline c)"
    by (rule strip_newline_no_delim)
  ultimately have neq: "strip_newline c \<noteq> strip_newline (c @ '', '' @ tail)"
    by auto
  from parse have "load_lines all_heroes [h @ '', '' @ c @ '', '' @ tail] =
           Inr (add_hero all_heroes (h, strip_newline c))"
    by (simp del: append.simps)
  with split parse neq show ?thesis by blast
qed

theorem extra_segments_discarded_witness:
  "parse_line (''Bob, Mage, the Great'' @ [newline]) = Inr (''Bob'', ''Mage'')
   \<and> load_lines [] [''Bob, Mage, the Great'' @ [newline]] = Inr [(''Mage'', [''Bob''])]
   \<and> strip_newline (''Mage, the Great'' @ [newline]) = ''Mage, the Great''"
  using extra_segments_discarded [of "''Bob''" "''Mage''" "''the Great'' @ [newline]" "[]"]
  by (simp add: add_hero_def strip_newline_def newline_def)

lemma first_occurrences_snoc:
  "first_occurrences (xs @ [c]) =
     (if c \<in> set xs then first_occurrences xs else first_occurrences xs @ [c])"
  by (simp add: first_occurrences_def)

lemma set_first_occurrences: "set (first_occurrences xs) = set xs"
  by (simp add: first_occurrences_def)

lemma add_hero_keys:
  "map fst (add_hero cat (h, c)) =
     (if c \<in> set (map fst cat) then map fst cat else map fst cat @ [c])"
  by (simp add: add_hero_def AList.update_keys split: option.splits)

lemma add_hero_lookup:
  "map_of (add_hero cat (h, c)) =
     (map_of cat)(c \<mapsto> (case map_of cat c of None \<Rightarrow> [] | Some hs \<Rightarrow> hs) @ [h])"
  by (simp add: add_hero_def AList.update_conv' split: option.splits)

lemma foldl_add_hero_keys:
  "map fst (foldl add_hero [] ps) = first_occurrences (map snd ps)"
proof (induction ps rule: rev_induct)
  case Nil
  show ?case by (simp add: first_occurrences_def)
next
  case (snoc p ps)
  obtain h c where p: "p = (h, c)" by (cases p)
  have "set (map fst (foldl add_hero [] ps)) = set (map snd ps)"
    by (simp only: snoc.IH set_first_occurrences)
  with snoc.IH p show ?case
    by (simp add: add_hero_keys first_occurrences_snoc)
qed

lemma foldl_add_hero_lookup:
  "map_of (foldl add_hero [] ps) c =
     (if c \<in> snd ` set ps then Some (map fst (filter (\<lambda>p. snd p = c) ps)) else None)"
proof (induction ps rule: rev_induct)
  case Nil
  show ?case by simp
next
  case (snoc p ps)
  obtain h c' where p: "p = (h, c')" by (cases p)
  have "filter (\<lambda>p. snd p = c') ps = []" if "c' \<notin> snd ` set ps"
    using that by (force simp: filter_empty_conv)
  with snoc.IH p show ?case
    by (auto simp: add_hero_lookup)
qed

lemma load_lines_entries:
  assumes "\<forall>e \<in> set entries. \<not> has_delim (fst e) \<and> \<not> has_delim (snd e)"
  shows "load_lines cat (map (\<lambda>e. fst e @ '', '' @ snd e) entries) =
           Inr (foldl add_hero cat (map (\<lambda>e. (fst e, strip_newline (snd e))) entries))"
  using assms
proof (induction entries arbitrary: cat)
  case Nil
  show ?case by simp
next
  case (Cons e entries)
  then have "parse_line (fst e @ '', '' @ snd e) = Inr (fst e, strip_newline (snd e))"
    by (simp add: parse_line_one del: append.simps)
  with Cons show ?case
    by (simp del: append.simps)
qed

text \<open>
  C4, as the claim states it, fails on a line whose class name is followed by a space:
  \<open>strip('\n')\<close> removes newlines only, so the class of the second line below is
  \<open>Warrior\<close> with the space, a key of its own, where the claim has \<open>Warrior\<close>.
\<close>

theorem class_whitespace_kept:
  "load_heroes padded_fs (initial_session\<lparr>hero_file_path := Some ''heroes.txt''\<rparr>) =
     Inr (initial_session\<lparr>hero_file_path := Some ''heroes.txt'',
            possible_heroes := Some [(''Warrior'', [''A'']), (''Warrior '', [''B''])]\<rparr>)
   \<and> parse_line (''B, Warrior '' @ [newline]) = Inr (''B'', ''Warrior '')
   \<and> spec_class_field (''B, Warrior '' @ [newline]) = ''Warrior''
   \<and> ''Warrior '' \<noteq> spec_class_field (''B, Warrior '' @ [newline])"
  by (simp add: padded_fs_def initial_session_def newline_def load_heroes_def
      parse_line_def split_delim.simps strip_newline_def add_hero_def
      spec_class_field_def strip_whitespace_def is_whitespace_def)

text \<open>
  C4, amended. Let every line of the file be \<open>h\<close>, the delimiter and \<open>r\<close>, with no
  delimiter inside \<open>h\<close> or \<open>r\<close>. Then \<open>load_heroes\<close> returns, the hero of a line is \<open>h\<close> as
  it stands and its class is \<open>r\<close> with the newlines at both ends removed and all other
  whitespace kept; the keys of the pool are the classes in the order of their first
  occurrence in the file, and the list of a class holds the heroes of its lines in the
  order of the file.
\<close>

theorem load_heroes_catalog:
  assumes wf: "\<forall>e \<in> set entries. \<not> has_delim (fst e) \<and> \<not> has_delim (snd e)"
      and path: "hero_file_path s = Some p" "p \<noteq> []"
      and content: "fs p = Some content"
      and lines: "lines_of content = map (\<lambda>e. fst e @ '', '' @ snd e) entries"
  shows "\<exists>cat. load_heroes fs s = Inr (s\<lparr>possible_heroes := Some cat\<rparr>)
           \<and> (\<forall>e \<in> set entries.
                 parse_line (fst e @ '', '' @ snd e) = Inr (fst e, strip_newline (snd e)))
           \<and> map fst cat = first_occurrences (map (\<lambda>e. strip_newline (snd e)) entries)
           \<and> (\<forall>c. map_of cat c =
                 (if c \<in> set (map fst cat)
                  then Some (map fst (filter (\<lambda>e. strip_newline (snd e) = c) entries))
                  else None))"
proof -
  let ?ps = "map (\<lambda>e. (fst e, strip_newline (snd e))) entries"
  let ?cat = "foldl add_hero [] ?ps"
  have "load_lines [] (lines_of content) = Inr ?cat"
    unfolding lines using wf by (rule load_lines_entries)
  with path content have load: "load_heroes fs s = Inr (s\<lparr>possible_heroes := Some ?cat\<rparr>)"
    by (simp add: load_heroes_def)
  have parse: "\<forall>e \<in> set entries.
      parse_line (fst e @ '', '' @ snd e) = Inr (fst e, strip_newline (snd e))"
    using wf by (simp add: parse_line_one del: append.simps)
  have keys: "map fst ?cat = first_occurrences (map (\<lambda>e. strip_newline (snd e)) entries)"
    by (simp add: foldl_add_hero_keys comp_def)
  have filt: "map fst (filter (\<lambda>p. snd p = c) ?ps) =
      map fst (filter (\<lambda>e. strip_newline (snd e) = c) entries)" for c
    by (induction entries) simp_all
  have "map_of ?cat c =
      (if c \<in> set (map fst ?cat)
       then Some (map fst (filter (\<lambda>e. strip_newline (snd e) = c) entries))
       else None)" for c
    unfolding keys set_first_occurrences foldl_add_hero_lookup filt [symmetric]
    by (simp add: image_image)
  with load parse keys show ?thesis by blast
qed

theorem load_heroes_catalog_witness:
  "load_heroes example_fs (initial_session\<lparr>hero_file_path := Some ''heroes.txt''\<rparr>) =
     Inr (initial_session\<lparr>hero_file_path := Some ''heroes.txt'',
            possible_heroes := Some [(''Warrior'', [''A'', ''B'']), (''Mage'', [''C''])]\<rparr>)"
  using load_heroes_catalog [where fs = example_fs
      and s = "initial_session\<lparr>hero_file_path := Some ''heroes.txt''\<rparr>"
      and p = "''heroes.txt''"
      and content = "''A, Warrior'' @ [newline] @ ''C, Mage'' @ [newline] @ ''B, Warrior'' @ [newline]"
      and entries = "[(''A'', ''Warrior'' @ [newline]), (''C'', ''Mage'' @ [newline]),
                      (''B'', ''Warrior'' @ [newline])]"]
  by (simp add: example_fs_def initial_session_def newline_def load_heroes_def
      parse_line_def split_delim.simps strip_newline_def add_hero_def)

end
